theory Spec2Isabelle
  imports Complex_Main "HOL-Library.Word"
begin

section \<open>JavaScript numbers\<close>

text \<open>
  Every number of \<^verbatim>\<open>script.js\<close> is an IEEE 754 binary64 value, and every arithmetic
  operator returns the exact result rounded to the nearest such value, ties to the even
  significand. A finite binary64 value is a real number here; \<open>rd\<close> is the rounding:
  the significand has 53 bits and the exponent of the last place is at least \<open>-1074\<close>
  (subnormal numbers). Results of magnitude \<open>2 ^ 1024\<close> and more (JavaScript's
  \<^verbatim>\<open>Infinity\<close>) are outside the model; pixel bytes and canvas coordinates stay far
  below. \<^verbatim>\<open>NaN\<close> only arises from reading past the end of an array, and is treated
  where the arrays are read.
\<close>

definition pow2 :: "int \<Rightarrow> real" where
  "pow2 e = (if 0 \<le> e then 2 ^ nat e else 1 / 2 ^ nat (- e))"

text \<open>The binary exponent of a positive number: \<open>pow2 (ilog2 x) \<le> x < pow2 (ilog2 x + 1)\<close>.\<close>

definition ilog2 :: "real \<Rightarrow> int" where
  "ilog2 x = (if x \<le> 0 then 0 else \<lfloor>log 2 x\<rfloor>)"

definition roundTiesToEven :: "real \<Rightarrow> int" where
  "roundTiesToEven q =
     (let f = \<lfloor>q\<rfloor>; r = q - of_int f
      in if r < 1 / 2 then f else if 1 / 2 < r then f + 1
         else if even f then f else f + 1)"

text \<open>
  The exponent of the last place of the binary64 values around \<open>x\<close>: 52 places below
  the leading bit, and \<open>-1074\<close> for the subnormal numbers.
\<close>

definition expo :: "real \<Rightarrow> int" where
  "expo x = max (ilog2 \<bar>x\<bar>) (- 1022) - 52"

definition rd :: "real \<Rightarrow> real" where
  "rd x =
     (if x = 0 then 0
      else sgn x * (of_int (roundTiesToEven (\<bar>x\<bar> / pow2 (expo x))) * pow2 (expo x)))"

text \<open>The operators \<^verbatim>\<open>+ - * /\<close>, \<^verbatim>\<open>v ** 2\<close> and \<^verbatim>\<open>Math.sqrt\<close>.\<close>

definition fadd :: "real \<Rightarrow> real \<Rightarrow> real" where
  "fadd a b = rd (a + b)"

definition fsub :: "real \<Rightarrow> real \<Rightarrow> real" where
  "fsub a b = rd (a - b)"

definition fmul :: "real \<Rightarrow> real \<Rightarrow> real" where
  "fmul a b = rd (a * b)"

definition fdiv :: "real \<Rightarrow> real \<Rightarrow> real" where
  "fdiv a b = rd (a / b)"

definition fsquare :: "real \<Rightarrow> real" where
  "fsquare v = rd (v * v)"

definition fsqrt :: "real \<Rightarrow> real" where
  "fsqrt v = rd (sqrt v)"

section \<open>Configuration and state of \<^verbatim>\<open>script.js\<close>\<close>

type_synonym byte = "8 word"

definition fontSize :: nat where
  "fontSize = 4"

definition chars :: string where
  "chars = '' @%#*+=-:. ''"

definition motionThreshold :: real where
  "motionThreshold = 8"

text \<open>
  \<^verbatim>\<open>previousFrameData\<close> is the array literal \<^verbatim>\<open>[]\<close> at start and after a resize,
  and a \<^verbatim>\<open>Uint8ClampedArray\<close> once \<^verbatim>\<open>draw\<close> has allocated it.
\<close>

datatype buffer = EmptyArray | Uint8Clamped "byte list"

fun buf_length :: "buffer \<Rightarrow> nat" where
  "buf_length EmptyArray = 0"
| "buf_length (Uint8Clamped bs) = length bs"

text \<open>An indexed read; \<open>None\<close> is JavaScript's \<^verbatim>\<open>undefined\<close> past the end.\<close>

definition byteAt :: "byte list \<Rightarrow> nat \<Rightarrow> real option" where
  "byteAt bs i = (if i < length bs then Some (real (unat (bs ! i))) else None)"

fun bufAt :: "buffer \<Rightarrow> nat \<Rightarrow> real option" where
  "bufAt EmptyArray i = None"
| "bufAt (Uint8Clamped bs) i = byteAt bs i"

record state =
  canvas_width :: nat
  canvas_height :: nat
  previousFrameData :: buffer

datatype js_error = IndexSizeError | TypeError | RangeError

section \<open>\<^verbatim>\<open>getColor\<close>\<close>

text \<open>The string \<^verbatim>\<open>hsl(h, s%, l%)\<close>, by its three numbers.\<close>

datatype color = Hsl real real real

text \<open>Line 38: \<^verbatim>\<open>Math.max(30, Math.min(80, (brightness / 255) * 100))\<close>.\<close>

definition lightness :: "real \<Rightarrow> real" where
  "lightness brightness = max 30 (min 80 (fmul (fdiv brightness 255) 100))"

definition getColor :: "real \<Rightarrow> real \<Rightarrow> real \<Rightarrow> real \<Rightarrow> real \<Rightarrow> color" where
  "getColor y height x width brightness =
     (let lit = lightness brightness in
      if y < fdiv height 3 then Hsl 25 100 lit
      else if y < fmul (fdiv height 3) 2 then
        (let cx = fdiv width 2;
             cy = fdiv height 2;
             dist = fsqrt (fadd (fsquare (fsub x cx)) (fsquare (fsub y cy)))
         in if dist < fdiv height 6 then Hsl 240 100 lit else Hsl 0 0 lit)
      else Hsl 130 90 lit)"

section \<open>\<^verbatim>\<open>draw\<close>\<close>

text \<open>Lines 100 to 102, for a palette string.\<close>

definition charIndex :: "string \<Rightarrow> real \<Rightarrow> int" where
  "charIndex palette avg = \<lfloor>fmul (fdiv avg 255) (fsub (real (length palette)) 1)\<rfloor>"

definition charAt :: "string \<Rightarrow> int \<Rightarrow> char option" where
  "charAt palette k =
     (if 0 \<le> k \<and> k < int (length palette) then Some (palette ! nat k) else None)"

definition charFor :: "string \<Rightarrow> real \<Rightarrow> char option" where
  "charFor palette avg = charAt palette (int (length palette) - 1 - charIndex palette avg)"

text \<open>Lines 76 to 78: the memory is allocated again when the length differs.\<close>

definition reinitMemory :: "buffer \<Rightarrow> byte list \<Rightarrow> buffer" where
  "reinitMemory prev data = (if buf_length prev \<noteq> length data then Uint8Clamped data else prev)"

definition cellIndex :: "nat \<Rightarrow> nat \<Rightarrow> nat \<Rightarrow> nat" where
  "cellIndex width x y = (y * width + x) * 4"

text \<open>
  Lines 84 to 87. A channel read past the end is \<^verbatim>\<open>undefined\<close> and the average is
  \<^verbatim>\<open>NaN\<close>: \<open>None\<close>.
\<close>

definition avgAt :: "byte list \<Rightarrow> nat \<Rightarrow> real option" where
  "avgAt data i =
     (case (byteAt data i, byteAt data (i + 1), byteAt data (i + 2)) of
        (Some r, Some g, Some b) \<Rightarrow> Some (fdiv (fadd (fadd r g) b) 3)
      | _ \<Rightarrow> None)"

text \<open>Lines 92 to 96. A comparison with \<^verbatim>\<open>NaN\<close> is false.\<close>

definition isMoving :: "buffer \<Rightarrow> byte list \<Rightarrow> nat \<Rightarrow> bool" where
  "isMoving prev data i =
     (case (byteAt data (i + 1), bufAt prev (i + 1)) of
        (Some g, Some prevG) \<Rightarrow> motionThreshold < \<bar>fsub g prevG\<bar>
      | _ \<Rightarrow> False)"

text \<open>
  One \<^verbatim>\<open>fillText\<close> call: the translation \<open>(x, y)\<close>, the character
  (\<open>None\<close> for \<^verbatim>\<open>undefined\<close>), \<^verbatim>\<open>fillStyle\<close> and \<^verbatim>\<open>globalAlpha\<close>.
\<close>

record draw_call =
  at_x :: nat
  at_y :: nat
  glyph :: "char option"
  fillStyle :: color
  globalAlpha :: real

text \<open>The body of the inner loop, lines 83 to 119: the calls it makes for one cell.\<close>

definition cell :: "buffer \<Rightarrow> byte list \<Rightarrow> nat \<Rightarrow> nat \<Rightarrow> nat \<Rightarrow> nat \<Rightarrow> draw_call list" where
  "cell prev data width height x y =
     (let i = cellIndex width x y in
      case avgAt data i of
        None \<Rightarrow> []
      | Some avg \<Rightarrow>
          if 15 < avg then
            [\<lparr>at_x = x, at_y = y,
              glyph = charFor chars avg,
              fillStyle = getColor (real y) (real height) (real x) (real width) avg,
              globalAlpha = (if isMoving prev data i then 1 else rd (3 / 10))\<rparr>]
          else [])"

text \<open>
  The loops of lines 81 and 82: \<open>x\<close> runs over a row and \<open>y\<close> over the rows, both in
  steps of \<open>fontSize\<close>, and the calls are made in that order.
\<close>

function scanRow :: "buffer \<Rightarrow> byte list \<Rightarrow> nat \<Rightarrow> nat \<Rightarrow> nat \<Rightarrow> nat \<Rightarrow> draw_call list" where
  "scanRow prev data width height y x =
     (if x < width
      then cell prev data width height x y @ scanRow prev data width height y (x + fontSize)
      else [])"
  by pat_completeness auto
termination
  by (relation "measure (\<lambda>(prev, data, width, height, y, x). width - x)")
     (auto simp: fontSize_def)

function scanGrid :: "buffer \<Rightarrow> byte list \<Rightarrow> nat \<Rightarrow> nat \<Rightarrow> nat \<Rightarrow> draw_call list" where
  "scanGrid prev data width height y =
     (if y < height
      then scanRow prev data width height y 0 @ scanGrid prev data width height (y + fontSize)
      else [])"
  by pat_completeness auto
termination
  by (relation "measure (\<lambda>(prev, data, width, height, y). height - y)")
     (auto simp: fontSize_def)

text \<open>
  Line 125, \<^verbatim>\<open>previousFrameData.set(data)\<close>: an \<^verbatim>\<open>Array\<close> has no method
  \<^verbatim>\<open>set\<close>; a typed array refuses a longer source and is otherwise overwritten from
  index 0.
\<close>

fun setFrom :: "buffer \<Rightarrow> byte list \<Rightarrow> js_error + buffer" where
  "setFrom EmptyArray data = Inl TypeError"
| "setFrom (Uint8Clamped bs) data =
     (if length bs < length data then Inl RangeError
      else Inr (Uint8Clamped (data @ drop (length data) bs)))"

text \<open>
  One tick, lines 62 to 130. \<open>data\<close> is the pixel array that \<^verbatim>\<open>getImageData\<close> returns
  for the frame at line 65; the call throws for a rectangle of width or height 0. The
  result is the list of \<^verbatim>\<open>fillText\<close> calls in order, and the state for the next tick.
\<close>

definition draw :: "state \<Rightarrow> byte list \<Rightarrow> js_error + (draw_call list \<times> state)" where
  "draw s data =
     (if canvas_width s = 0 \<or> canvas_height s = 0 then Inl IndexSizeError
      else
        let prev = reinitMemory (previousFrameData s) data;
            calls = scanGrid prev data (canvas_width s) (canvas_height s) 0
        in case setFrom prev data of
             Inl e \<Rightarrow> Inl e
           | Inr prev' \<Rightarrow> Inr (calls, s\<lparr>previousFrameData := prev'\<rparr>))"


text \<open>The pixel array of a frame has four bytes for each pixel of the canvas.\<close>

definition frameOf :: "state \<Rightarrow> byte list \<Rightarrow> bool" where
  "frameOf s data = (length data = 4 * canvas_width s * canvas_height s)"

text \<open>The motion flag that the tick \<open>draw s data\<close> computes for the cell at \<open>(x, y)\<close>.\<close>

definition tickMoving :: "state \<Rightarrow> byte list \<Rightarrow> nat \<Rightarrow> nat \<Rightarrow> bool" where
  "tickMoving s data x y =
     isMoving (reinitMemory (previousFrameData s) data) data (cellIndex (canvas_width s) x y)"

section \<open>The specification's clamp\<close>

text \<open>
  The specification writes the lightness as \<open>clamp(30, 80, v)\<close>: the value \<open>v\<close> held
  between a lower and an upper bound. This definition follows those words, for the
  comparison with line 38 of the source.
\<close>

definition spec_clamp :: "real \<Rightarrow> real \<Rightarrow> real \<Rightarrow> real" where
  "spec_clamp lo hi v = (if v < lo then lo else if hi < v then hi else v)"

section \<open>Facts about rounding\<close>

lemma pow2_powr: "pow2 e = 2 powr (of_int e)"
  apply (auto simp: pow2_def powr_realpow[symmetric] )
  apply (simp add: powr_minus_divide[symmetric])
  done

lemma pow2_pos: "0 < pow2 e" by (simp add: pow2_powr)

lemma pow2_add: "pow2 (a + b) = pow2 a * pow2 b"
  by (simp add: pow2_powr powr_add)

lemma pow2_mono: "a \<le> b \<Longrightarrow> pow2 a \<le> pow2 b"
  by (simp add: pow2_powr)

lemma pow2_nat: "0 \<le> e \<Longrightarrow> pow2 e = of_int (2 ^ nat e)"
  by (simp add: pow2_def)

lemma ilog2_bounds:
  assumes "0 < x"
  shows "pow2 (ilog2 x) \<le> x" and "x < pow2 (ilog2 x + 1)"
proof -
  have e: "ilog2 x = \<lfloor>log 2 x\<rfloor>" using assms by (simp add: ilog2_def)
  have "of_int \<lfloor>log 2 x\<rfloor> \<le> log 2 x" by simp
  then have "2 powr (of_int \<lfloor>log 2 x\<rfloor>) \<le> 2 powr (log 2 x)" by (simp only: powr_le_cancel_iff)
  then show "pow2 (ilog2 x) \<le> x" using assms by (simp add: pow2_powr e)
  have "log 2 x < of_int (\<lfloor>log 2 x\<rfloor> + 1)" by linarith
  then have "2 powr (log 2 x) < 2 powr (of_int (\<lfloor>log 2 x\<rfloor> + 1))" by (simp only: powr_less_cancel_iff)
  then show "x < pow2 (ilog2 x + 1)" using assms by (simp add: pow2_powr e)
qed

lemma ilog2_unique:
  assumes "pow2 e \<le> x" and "x < pow2 (e + 1)"
  shows "ilog2 x = e"
proof -
  have pos: "0 < x" using assms(1) pow2_pos[of e] by linarith
  have "2 powr (of_int e) \<le> 2 powr (log 2 x)" using assms(1) pos by (simp add: pow2_powr)
  then have a: "of_int e \<le> log 2 x" by (simp only: powr_le_cancel_iff)
  have "2 powr (log 2 x) < 2 powr (of_int (e + 1))" using assms(2) pos by (simp add: pow2_powr)
  then have b: "log 2 x < of_int (e + 1)" by (simp only: powr_less_cancel_iff)
  have "\<lfloor>log 2 x\<rfloor> = e" using a b by linarith
  then show ?thesis using pos by (simp add: ilog2_def)
qed

lemma ilog2_mono: "0 < x \<Longrightarrow> x \<le> y \<Longrightarrow> ilog2 x \<le> ilog2 y"
  by (simp add: ilog2_def floor_mono)

lemma ilog2_code [code]:
  "ilog2 x = (if x \<le> 0 then 0 else if 2 \<le> x then ilog2 (x / 2) + 1
              else if x < 1 then ilog2 (2 * x) - 1 else 0)"
proof -
  have "ilog2 x = ilog2 (x / 2) + 1" if "2 \<le> x"
  proof -
    have "log 2 (x / 2) = log 2 x - 1" using that by (simp add: log_divide)
    then show ?thesis using that by (simp add: ilog2_def)
  qed
  moreover have "ilog2 x = ilog2 (2 * x) - 1" if "0 < x" "x < 1"
  proof -
    have "log 2 (2 * x) = 1 + log 2 x" using that by (simp add: log_mult)
    then show ?thesis using that by (simp add: ilog2_def) 
  qed
  moreover have "ilog2 x = 0" if "1 \<le> x" "x < 2"
    using that by (intro ilog2_unique) (simp_all add: pow2_def)
  ultimately show ?thesis by (auto simp: ilog2_def)
qed

lemma roundTiesToEven_of_int: "roundTiesToEven (of_int n) = n"
  by (simp add: roundTiesToEven_def)

lemma roundTiesToEven_bounds: "\<lfloor>q\<rfloor> \<le> roundTiesToEven q" "roundTiesToEven q \<le> \<lfloor>q\<rfloor> + 1"
  by (simp_all add: roundTiesToEven_def Let_def)

lemma roundTiesToEven_mono:
  assumes "q \<le> q'"
  shows "roundTiesToEven q \<le> roundTiesToEven q'"
proof (cases "\<lfloor>q\<rfloor> = \<lfloor>q'\<rfloor>")
  case True
  then show ?thesis using assms by (auto simp: roundTiesToEven_def Let_def)
next
  case False
  then have "\<lfloor>q\<rfloor> + 1 \<le> \<lfloor>q'\<rfloor>" using floor_mono[OF assms] by linarith
  then show ?thesis
    using roundTiesToEven_bounds(2)[of q] roundTiesToEven_bounds(1)[of q'] by linarith
qed

lemma rd_zero: "rd 0 = 0"
  by (simp add: rd_def)

lemma rd_minus: "rd (- x) = - rd x"
  by (simp add: rd_def expo_def)


lemma rd_pos_eq:
  "0 < x \<Longrightarrow> rd x = of_int (roundTiesToEven (x / pow2 (expo x))) * pow2 (expo x)"
  by (simp add: rd_def)

lemma expo_mono: "0 < x \<Longrightarrow> x \<le> y \<Longrightarrow> expo x \<le> expo y"
  using ilog2_mono[of x y] by (simp add: expo_def)

lemma rd_pos_upper:
  assumes "0 < x"
  shows "rd x \<le> pow2 (expo x + 53)"
proof -
  let ?e = "expo x"
  have "ilog2 x \<le> ?e + 52" using assms by (simp add: expo_def)
  then have "pow2 (ilog2 x + 1) \<le> pow2 (?e + 53)" by (intro pow2_mono) simp
  then have "x \<le> pow2 (?e + 53)" using ilog2_bounds(2)[OF assms] by linarith
  then have "x / pow2 ?e \<le> pow2 53" 
    using pow2_pos[of ?e] by (simp add: pow2_add field_simps)
  then have "x / pow2 ?e \<le> of_int (2 ^ 53)" by (simp add: pow2_def)
  from roundTiesToEven_mono[OF this]
  have "roundTiesToEven (x / pow2 ?e) \<le> 2 ^ 53" by (simp only: roundTiesToEven_of_int)
  then have "real_of_int (roundTiesToEven (x / pow2 ?e)) \<le> pow2 53"
    by (simp add: pow2_def)
  then have "real_of_int (roundTiesToEven (x / pow2 ?e)) * pow2 ?e \<le> pow2 53 * pow2 ?e"
    using pow2_pos[of ?e] by (simp only: mult_le_cancel_right_pos)
  then show ?thesis using assms by (simp add: rd_pos_eq pow2_add mult.commute)
qed

lemma rd_pos_lower:
  assumes "0 < x" and "- 1022 \<le> ilog2 x"
  shows "pow2 (expo x + 52) \<le> rd x"
proof -
  let ?e = "expo x"
  have "ilog2 x = ?e + 52" using assms by (simp add: expo_def)
  then have "pow2 (?e + 52) \<le> x" using ilog2_bounds(1)[OF assms(1)] by simp
  then have "pow2 52 \<le> x / pow2 ?e"
    using pow2_pos[of ?e] by (simp add: pow2_add field_simps)
  then have "of_int (2 ^ 52) \<le> x / pow2 ?e" by (simp add: pow2_def)
  from roundTiesToEven_mono[OF this]
  have "2 ^ 52 \<le> roundTiesToEven (x / pow2 ?e)" by (simp only: roundTiesToEven_of_int)
  then have "pow2 52 \<le> real_of_int (roundTiesToEven (x / pow2 ?e))"
    by (simp add: pow2_def)
  then have "pow2 52 * pow2 ?e \<le> real_of_int (roundTiesToEven (x / pow2 ?e)) * pow2 ?e"
    using pow2_pos[of ?e] by (simp only: mult_le_cancel_right_pos)
  then show ?thesis using assms by (simp add: rd_pos_eq pow2_add mult.commute)
qed

lemma rd_pos_mono:
  assumes "0 < x" and "x \<le> y"
  shows "rd x \<le> rd y"
proof (cases "expo x = expo y")
  case True
  have y: "0 < y" using assms by linarith
  have "x / pow2 (expo y) \<le> y / pow2 (expo y)"
    using assms pow2_pos[of "expo y"] by (simp add: divide_le_cancel)
  from roundTiesToEven_mono[OF this]
  have "real_of_int (roundTiesToEven (x / pow2 (expo y))) * pow2 (expo y)
      \<le> real_of_int (roundTiesToEven (y / pow2 (expo y))) * pow2 (expo y)"
    using pow2_pos[of "expo y"] by (simp only: mult_le_cancel_right_pos of_int_le_iff)
  then show ?thesis using assms y True by (simp add: rd_pos_eq)
next
  case False
  have y: "0 < y" using assms by linarith
  have lt: "expo x < expo y" using expo_mono[OF assms] False by linarith
  then have "- 1022 \<le> ilog2 y" using y by (simp add: expo_def max_def split: if_splits)
  from rd_pos_lower[OF y this] have "pow2 (expo y + 52) \<le> rd y" .
  moreover have "rd x \<le> pow2 (expo x + 53)" by (rule rd_pos_upper[OF assms(1)])
  moreover have "pow2 (expo x + 53) \<le> pow2 (expo y + 52)" using lt by (intro pow2_mono) simp
  ultimately show ?thesis by linarith
qed

lemma rd_nonneg: "0 \<le> x \<Longrightarrow> 0 \<le> rd x"
proof (cases "x = 0")
  case True then show ?thesis by (simp add: rd_zero)
next
  case False
  assume "0 \<le> x"
  then have x: "0 < x" using False by simp
  have "0 \<le> x / pow2 (expo x)" using x pow2_pos[of "expo x"] by simp
  then have "(0::int) \<le> \<lfloor>x / pow2 (expo x)\<rfloor>" by simp
  then have "0 \<le> roundTiesToEven (x / pow2 (expo x))"
    using roundTiesToEven_bounds(1)[of "x / pow2 (expo x)"] by linarith
  then show ?thesis using x pow2_pos[of "expo x"] by (simp add: rd_pos_eq)
qed

lemma rd_mono:
  assumes "x \<le> y"
  shows "rd x \<le> rd y"
proof -
  consider "0 < x" | "x \<le> 0" "0 \<le> y" | "y < 0" by linarith
  then show ?thesis
  proof cases
    case 1 then show ?thesis using assms by (rule rd_pos_mono)
  next
    case 2
    have "rd x \<le> 0" using rd_nonneg[of "- x"] 2 by (simp add: rd_minus)
    moreover have "0 \<le> rd y" using 2 by (simp add: rd_nonneg)
    ultimately show ?thesis by linarith
  next
    case 3
    have "rd (- y) \<le> rd (- x)" using 3 assms by (intro rd_pos_mono) simp_all
    then show ?thesis by (simp add: rd_minus)
  qed
qed

lemma scaled_int:
  assumes "e \<le> k"
  shows "of_int m * pow2 k / pow2 e = of_int (m * 2 ^ nat (k - e))"
proof -
  have "pow2 k = pow2 ((k - e) + e)" by simp
  also have "\<dots> = pow2 (k - e) * pow2 e" by (rule pow2_add)
  also have "pow2 (k - e) = 2 ^ nat (k - e)" using assms by (simp add: pow2_def)
  finally have "of_int m * pow2 k / pow2 e = of_int m * (2 ^ nat (k - e) * pow2 e) / pow2 e"
    by simp
  also have "\<dots> = of_int m * 2 ^ nat (k - e)" using pow2_pos[of e] by simp
  finally show ?thesis by simp
qed

lemma rd_exact_pos:
  assumes m: "0 < m" "m < 2 ^ 53" and k: "- 1074 \<le> k"
  shows "rd (of_int m * pow2 k) = of_int m * pow2 k"
proof -
  let ?x = "of_int m * pow2 k"
  have x: "0 < ?x" using m pow2_pos[of k] by simp
  have "real_of_int m < pow2 53" using m(2) 
  proof -
    have "real_of_int m < of_int (2 ^ 53)" using m(2) by (simp only: of_int_less_iff)
    then show ?thesis by (simp add: pow2_def)
  qed
  then have "?x < pow2 53 * pow2 k" using pow2_pos[of k] by simp
  then have "?x < pow2 ((52 + k) + 1)" by (simp add: pow2_add[symmetric])
  have "ilog2 ?x \<le> 52 + k"
  proof (rule ccontr)
    assume "\<not> ilog2 ?x \<le> 52 + k"
    then have "(52 + k) + 1 \<le> ilog2 ?x" by simp
    then have "pow2 ((52 + k) + 1) \<le> pow2 (ilog2 ?x)" by (rule pow2_mono)
    then show False using ilog2_bounds(1)[OF x] \<open>?x < pow2 ((52 + k) + 1)\<close> by linarith
  qed
  then have e: "expo ?x \<le> k" using k x by (simp add: expo_def)
  have sc: "?x / pow2 (expo ?x) = of_int (m * 2 ^ nat (k - expo ?x))"
    using e by (rule scaled_int)
  then have "roundTiesToEven (?x / pow2 (expo ?x)) = m * 2 ^ nat (k - expo ?x)"
    by (simp only: roundTiesToEven_of_int)
  then have "rd ?x = of_int (m * 2 ^ nat (k - expo ?x)) * pow2 (expo ?x)"
    using x by (simp only: rd_pos_eq)
  also have "\<dots> = ?x / pow2 (expo ?x) * pow2 (expo ?x)" by (simp only: sc)
  also have "\<dots> = ?x" using pow2_pos[of "expo ?x"] by simp
  finally show ?thesis .
qed

lemma rd_exact:
  assumes "\<bar>m\<bar> < 2 ^ 53" and "- 1074 \<le> k"
  shows "rd (of_int m * pow2 k) = of_int m * pow2 k"
proof -
  consider "m = 0" | "0 < m" | "m < 0" by linarith
  then show ?thesis
  proof cases
    case 1 then show ?thesis by (simp add: rd_zero)
  next
    case 2 then show ?thesis using assms by (intro rd_exact_pos) simp_all
  next
    case 3
    then have "rd (of_int (- m) * pow2 k) = of_int (- m) * pow2 k"
      using assms by (intro rd_exact_pos) simp_all
    then show ?thesis using rd_minus[of "of_int m * pow2 k"] by simp
  qed
qed

lemma rd_of_int: "\<bar>n\<bar> < 2 ^ 53 \<Longrightarrow> rd (of_int n) = of_int n"
  using rd_exact[of n 0] by (simp add: pow2_def)

lemma rd_of_nat: "n < 2 ^ 53 \<Longrightarrow> rd (of_nat n) = of_nat n"
  using rd_of_int[of "int n"] by simp


lemma rd_numeral: "(numeral n :: int) < 2 ^ 53 \<Longrightarrow> rd (numeral n) = numeral n"
  using rd_of_int[of "numeral n"] by simp

lemma rd_one: "rd 1 = 1"
  using rd_of_int[of 1] by simp

lemmas fops = fadd_def fsub_def fmul_def fdiv_def fsquare_def fsqrt_def

lemma sqrt_2401: "sqrt 2401 = 49"
  by (rule real_sqrt_unique) simp_all

lemma sqrt_2500: "sqrt 2500 = 50"
  by (rule real_sqrt_unique) simp_all

lemma roundTiesToEven_error: "\<bar>of_int (roundTiesToEven q) - q\<bar> \<le> 1 / 2"
  by (auto simp: roundTiesToEven_def Let_def)

lemma pow2_Suc: "pow2 (k + 1) = pow2 k * 2"
proof -
  have "pow2 1 = 2" by (simp add: pow2_def)
  then show ?thesis by (simp only: pow2_add)
qed

lemma ilog2_le:
  assumes "0 < x" and "x \<le> pow2 k"
  shows "ilog2 x \<le> k"
proof (rule ccontr)
  assume "\<not> ilog2 x \<le> k"
  then have "k + 1 \<le> ilog2 x" by simp
  then have "pow2 (k + 1) \<le> pow2 (ilog2 x)" by (rule pow2_mono)
  moreover have "pow2 k < pow2 (k + 1)" using pow2_pos[of k] by (simp add: pow2_Suc)
  ultimately show False using ilog2_bounds(1)[OF assms(1)] assms(2) by linarith
qed

lemma rd_error:
  assumes "\<bar>x\<bar> \<le> pow2 k" and "- 1022 \<le> k"
  shows "\<bar>rd x - x\<bar> \<le> pow2 (k - 53)"
proof (cases "x = 0")
  case True
  then show ?thesis using pow2_pos[of "k - 53"] by (simp add: rd_zero)
next
  case False
  let ?e = "expo x"
  let ?q = "\<bar>x\<bar> / pow2 ?e"
  have pos: "0 < \<bar>x\<bar>" using False by simp
  have "ilog2 \<bar>x\<bar> \<le> k" using pos assms(1) by (rule ilog2_le)
  then have e: "?e \<le> k - 52" using assms(2) by (simp add: expo_def)
  have "?q * pow2 ?e = \<bar>x\<bar>" using pow2_pos[of ?e] by simp
  then have x: "x = sgn x * (?q * pow2 ?e)" by (simp only: sgn_mult_abs)
  have "rd x - x = sgn x * (of_int (roundTiesToEven ?q) * pow2 ?e) - sgn x * (?q * pow2 ?e)"
    using False x by (simp add: rd_def)
  also have "\<dots> = sgn x * ((of_int (roundTiesToEven ?q) - ?q) * pow2 ?e)"
    by (simp add: algebra_simps)
  finally have "\<bar>rd x - x\<bar> = \<bar>of_int (roundTiesToEven ?q) - ?q\<bar> * pow2 ?e"
    using False pow2_pos[of ?e] by (simp add: abs_mult abs_sgn_eq)
  also have "\<dots> \<le> 1 / 2 * pow2 ?e"
    using roundTiesToEven_error[of ?q] pow2_pos[of ?e] by (intro mult_right_mono) simp_all
  also have "\<dots> = pow2 (?e - 1)"
    using pow2_Suc[of "?e - 1"] by simp
  also have "\<dots> \<le> pow2 (k - 53)" using e by (intro pow2_mono) simp
  finally show ?thesis .
qed

section \<open>The colour of a cell\<close>

lemma lightness_0: "lightness 0 = 30"
  by (simp add: lightness_def fops rd_zero)

lemma lightness_255: "lightness 255 = 80"
  by (simp add: lightness_def fops rd_one rd_numeral)

lemma lightness_127: "30 < lightness 127 \<and> lightness 127 < 80"
  by code_simp

lemma lightness_128: "30 < lightness 128 \<and> lightness 128 < 80"
  by code_simp

lemma lightness_clamp: "lightness b = spec_clamp 30 80 (fmul (fdiv b 255) 100)"
  by (simp add: lightness_def spec_clamp_def max_def min_def)

lemma lightness_range: "30 \<le> lightness b \<and> lightness b \<le> 80"
  by (simp add: lightness_def)

lemma getColor_300_top: "y < 100 \<Longrightarrow> getColor y 300 x w b = Hsl 25 100 (lightness b)"
  by (simp add: getColor_def fops rd_numeral)

lemma getColor_300_middle:
  "100 \<le> y \<Longrightarrow> y < 200 \<Longrightarrow>
   getColor y 300 x w b = Hsl 240 100 (lightness b) \<or> getColor y 300 x w b = Hsl 0 0 (lightness b)"
  by (simp add: getColor_def fops rd_numeral Let_def)

lemma getColor_300_bottom: "200 \<le> y \<Longrightarrow> getColor y 300 x w b = Hsl 130 90 (lightness b)"
  by (simp add: getColor_def fops rd_numeral)

lemma getColor_centre: "getColor 150 300 150 300 b = Hsl 240 100 (lightness b)"
  by (simp add: getColor_def fops rd_numeral rd_zero)

lemma getColor_150_101: "getColor 101 300 150 300 b = Hsl 240 100 (lightness b)"
  by (simp add: getColor_def fops rd_numeral rd_zero rd_minus sqrt_2401)

lemma getColor_101_150: "getColor 150 300 101 300 b = Hsl 240 100 (lightness b)"
  by (simp add: getColor_def fops rd_numeral rd_zero rd_minus sqrt_2401)

lemma getColor_150_100: "getColor 100 300 150 300 b = Hsl 0 0 (lightness b)"
  by (simp add: getColor_def fops rd_numeral rd_zero rd_minus sqrt_2500)

section \<open>The glyph of a cell\<close>

lemma rd_dyadic: "\<bar>m\<bar> < 2 ^ 53 \<Longrightarrow> rd (of_int m / 2 ^ k) = of_int m / 2 ^ k" if "k \<le> 1074" for k :: nat
proof -
  assume m: "\<bar>m\<bar> < 2 ^ 53"
  have "pow2 (- int k) = 1 / 2 ^ k" by (simp add: pow2_def)
  then show ?thesis using rd_exact[of m "- int k"] m that by simp
qed

lemma fdiv_255_bounds:
  assumes "0 \<le> avg" and "avg \<le> 255"
  shows "0 \<le> fdiv avg 255" and "fdiv avg 255 \<le> 1"
proof -
  have "0 \<le> avg / 255" using assms by simp
  then show "0 \<le> fdiv avg 255" unfolding fdiv_def by (rule rd_nonneg)
  have "avg / 255 \<le> 1" using assms by simp
  then have "rd (avg / 255) \<le> rd 1" by (rule rd_mono)
  then show "fdiv avg 255 \<le> 1" by (simp add: fdiv_def rd_one)
qed

lemma palette_top:
  assumes "0 < n" and "n < 2 ^ 53"
  shows "fsub (real n) 1 = real (n - 1)"
proof -
  have "real n - 1 = real (n - 1)" using assms by (simp add: of_nat_diff)
  moreover have "n - 1 < 2 ^ 53" using assms(2) by (rule less_imp_diff_less)
  then have "rd (real (n - 1)) = real (n - 1)" by (rule rd_of_nat)
  ultimately show ?thesis by (simp only: fsub_def)
qed

lemma charIndex_bounds:
  assumes "0 \<le> avg" and "avg \<le> 255" and "0 < length p" and "length p < 2 ^ 53"
  shows "0 \<le> charIndex p avg" and "charIndex p avg \<le> int (length p) - 1"
proof -
  let ?n = "length p"
  let ?q = "fdiv avg 255"
  have top: "fsub (real ?n) 1 = real (?n - 1)" using assms(3,4) by (rule palette_top)
  have q: "0 \<le> ?q" "?q \<le> 1" using assms(1,2) by (rule fdiv_255_bounds)+
  have "0 \<le> ?q * real (?n - 1)" using q by simp
  then have "0 \<le> rd (?q * real (?n - 1))" by (rule rd_nonneg)
  then show "0 \<le> charIndex p avg" by (simp add: charIndex_def top fmul_def)
  have "?q * real (?n - 1) \<le> 1 * real (?n - 1)" using q by (intro mult_right_mono) simp_all
  then have "rd (?q * real (?n - 1)) \<le> rd (real (?n - 1))" using rd_mono by simp
  also have "\<dots> = real (?n - 1)"
    by (rule rd_of_nat) (rule less_imp_diff_less[OF assms(4)])
  finally have "\<lfloor>rd (?q * real (?n - 1))\<rfloor> \<le> int (?n - 1)" by (simp add: floor_le_iff)
  moreover have "charIndex p avg = \<lfloor>rd (?q * real (?n - 1))\<rfloor>"
    by (simp only: charIndex_def fmul_def top)
  moreover have "int (?n - 1) = int ?n - 1" using assms(3) by linarith
  ultimately show "charIndex p avg \<le> int ?n - 1" by linarith
qed

lemma charIndex_0:
  assumes "0 < length p" and "length p < 2 ^ 53"
  shows "charIndex p 0 = 0"
  by (simp add: charIndex_def fdiv_def fmul_def rd_zero)

lemma charIndex_255:
  assumes "0 < length p" and "length p < 2 ^ 53"
  shows "charIndex p 255 = int (length p) - 1"
proof -
  have "charIndex p 255 = \<lfloor>rd (real (length p - 1))\<rfloor>"
    using palette_top[OF assms] by (simp add: charIndex_def fdiv_def fmul_def rd_one)
  also have "rd (real (length p - 1)) = real (length p - 1)"
    by (rule rd_of_nat) (rule less_imp_diff_less[OF assms(2)])
  finally show ?thesis using assms(1) by (simp add: of_nat_diff)
qed

lemma charFor_in_range:
  assumes "0 \<le> avg" and "avg \<le> 255" and "0 < length p" and "length p < 2 ^ 53"
  shows "charFor p avg = Some (p ! (length p - 1 - nat (charIndex p avg)))"
proof -
  have b: "0 \<le> charIndex p avg" "charIndex p avg \<le> int (length p) - 1"
    using assms by (rule charIndex_bounds)+
  then have "nat (int (length p) - 1 - charIndex p avg) = length p - 1 - nat (charIndex p avg)"
    by linarith
  then show ?thesis using b by (simp add: charFor_def charAt_def)
qed

section \<open>The sample of a cell and the default palette\<close>

lemma rd_small_nat:
  assumes "n \<le> 765"
  shows "rd (real n) = real n"
proof -
  have "(765::nat) < 2 ^ 53" by simp
  with assms have "n < 2 ^ 53" by (rule le_less_trans)
  then show ?thesis by (rule rd_of_nat)
qed

lemma byte_le_255: "unat (w :: byte) \<le> 255"
proof -
  have "unat w < 2 ^ LENGTH(8)" by (rule unsigned_less)
  then show ?thesis by simp
qed

lemma byte_sum:
  fixes r g b :: byte
  shows "fadd (fadd (real (unat r)) (real (unat g))) (real (unat b))
         = real (unat r + unat g + unat b)"
proof -
  have a: "unat r + unat g \<le> 765" using byte_le_255[of r] byte_le_255[of g] by linarith
  have b: "unat r + unat g + unat b \<le> 765"
    using byte_le_255[of r] byte_le_255[of g] byte_le_255[of b] by linarith
  have "fadd (real (unat r)) (real (unat g)) = real (unat r + unat g)"
    using rd_small_nat[OF a] by (simp add: fadd_def)
  then show ?thesis using rd_small_nat[OF b] by (simp add: fadd_def)
qed

lemma avgAt_Some:
  assumes "avgAt data i = Some avg"
  shows "\<exists>k. k \<le> 765 \<and> avg = rd (real k / 3)"
proof -
  from assms obtain r g b :: byte where
    "avg = fdiv (fadd (fadd (real (unat r)) (real (unat g))) (real (unat b))) 3"
    by (auto simp: avgAt_def byteAt_def split: if_splits)
  then have "avg = rd (real (unat r + unat g + unat b) / 3)"
    by (simp only: byte_sum fdiv_def)
  moreover have "unat r + unat g + unat b \<le> 765"
    using byte_le_255[of r] byte_le_255[of g] byte_le_255[of b] by linarith
  ultimately show ?thesis by blast
qed

lemma rd_61_4: "rd (61 / 4) = 61 / 4"
  using rd_dyadic[of 2 61] by simp

lemma rd_51_2: "rd (51 / 2) = 51 / 2"
  using rd_dyadic[of 1 51] by simp

lemma rd_203_8: "rd (203 / 8) = 203 / 8"
  using rd_dyadic[of 3 203] by simp

lemma rd_51_512: "rd (51 / 512) = 51 / 512"
  using rd_dyadic[of 9 51] by simp

lemma rd_255_256: "rd (255 / 256) = 255 / 256"
  using rd_dyadic[of 8 255] by simp

lemma avg_above_15: "15 < rd (real k / 3) \<longleftrightarrow> 45 < k"
proof
  assume a: "15 < rd (real k / 3)"
  show "45 < k"
  proof (rule ccontr)
    assume "\<not> 45 < k"
    then have "real k / 3 \<le> 15" by simp
    then have "rd (real k / 3) \<le> rd 15" by (rule rd_mono)
    then show False using a by (simp add: rd_numeral)
  qed
next
  assume "45 < k"
  then have "46 \<le> real k" by simp
  then have "61 / 4 \<le> real k / 3" by simp
  then have "rd (61 / 4) \<le> rd (real k / 3)" by (rule rd_mono)
  then show "15 < rd (real k / 3)" by (simp add: rd_61_4)
qed

lemma avg_below_51_2:
  assumes "rd (real k / 3) < 51 / 2"
  shows "rd (real k / 3) \<le> 203 / 8"
proof -
  have "k \<le> 76"
  proof (rule ccontr)
    assume "\<not> k \<le> 76"
    then have "77 \<le> real k" by simp
    then have "51 / 2 \<le> real k / 3" by simp
    then have "rd (51 / 2) \<le> rd (real k / 3)" by (rule rd_mono)
    then show False using assms by (simp add: rd_51_2)
  qed
  then have "real k / 3 \<le> 203 / 8" by simp
  then have "rd (real k / 3) \<le> rd (203 / 8)" by (rule rd_mono)
  then show ?thesis by (simp add: rd_203_8)
qed

lemma chars_length: "length chars = 11"
  by (simp add: chars_def)

lemma chars_top: "fsub (real (length chars)) 1 = 10"
  by (simp add: chars_length fsub_def rd_numeral)

lemma charIndex_chars_low:
  assumes "0 \<le> avg" and "avg \<le> 203 / 8"
  shows "charIndex chars avg = 0"
proof -
  have "0 \<le> avg / 255" using assms(1) by simp
  then have q0: "0 \<le> fdiv avg 255" unfolding fdiv_def by (rule rd_nonneg)
  have "avg / 255 \<le> 51 / 512" using assms(2) by simp
  then have "rd (avg / 255) \<le> rd (51 / 512)" by (rule rd_mono)
  then have q1: "fdiv avg 255 \<le> 51 / 512" by (simp add: fdiv_def rd_51_512)
  have "0 \<le> fdiv avg 255 * 10" using q0 by simp
  then have p0: "0 \<le> rd (fdiv avg 255 * 10)" by (rule rd_nonneg)
  have "fdiv avg 255 * 10 \<le> 255 / 256" using q1 by simp
  then have "rd (fdiv avg 255 * 10) \<le> rd (255 / 256)" by (rule rd_mono)
  then have p1: "rd (fdiv avg 255 * 10) < 1" by (simp add: rd_255_256)
  have "\<lfloor>rd (fdiv avg 255 * 10)\<rfloor> = 0" using p0 p1 by linarith
  then show ?thesis by (simp add: charIndex_def chars_top fmul_def)
qed

lemma charFor_chars_low:
  assumes "0 \<le> avg" and "avg \<le> 203 / 8"
  shows "charFor chars avg = Some CHR '' ''"
  using charIndex_chars_low[OF assms] by (simp add: charFor_def charAt_def chars_def)

lemma charFor_chars_255: "charFor chars 255 = Some CHR '' ''"
proof -
  have "0 < length chars" "length chars < 2 ^ 53" by (simp_all add: chars_def)
  then have "charIndex chars 255 = int (length chars) - 1" by (rule charIndex_255)
  then show ?thesis by (simp add: charFor_def charAt_def chars_def)
qed

lemma dim_cell_blank:
  assumes "avgAt data i = Some avg" and "15 < avg" and "avg < 51 / 2"
  shows "charFor chars avg = Some CHR '' ''"
proof -
  from avgAt_Some[OF assms(1)] obtain k where k: "avg = rd (real k / 3)" by blast
  have "avg \<le> 203 / 8" using assms(3) unfolding k by (rule avg_below_51_2)
  moreover have "0 \<le> avg" using assms(2) by simp
  ultimately show ?thesis by (intro charFor_chars_low)
qed

lemma cell_emitted:
  assumes "avgAt data (cellIndex w x y) = Some avg" and "15 < avg"
  shows "cell prev data w h x y =
    [\<lparr>at_x = x, at_y = y, glyph = charFor chars avg,
      fillStyle = getColor (real y) (real h) (real x) (real w) avg,
      globalAlpha = (if isMoving prev data (cellIndex w x y) then 1 else rd (3 / 10))\<rparr>]"
  using assms by (simp add: cell_def)

lemma avgAt_pixel:
  "avgAt [a, a, a, 255] 0 = Some (fdiv (fadd (fadd (real (unat a)) (real (unat a))) (real (unat a))) 3)"
  by (simp add: avgAt_def byteAt_def)

section \<open>The lightness against exact arithmetic\<close>

lemma spec_clamp_lipschitz: "\<bar>spec_clamp lo hi u - spec_clamp lo hi v\<bar> \<le> \<bar>u - v\<bar>" if "lo \<le> hi"
  using that by (auto simp: spec_clamp_def)

lemma lightness_close:
  assumes "0 \<le> b" and "b \<le> 255"
  shows "\<bar>lightness b - spec_clamp 30 80 (b / 255 * 100)\<bar> \<le> 1 / 2 ^ 45"
proof -
  let ?q = "fdiv b 255"
  have q: "0 \<le> ?q" "?q \<le> 1" using assms by (rule fdiv_255_bounds)+
  have "\<bar>b / 255\<bar> \<le> pow2 0" using assms by (simp add: pow2_def)
  then have "\<bar>rd (b / 255) - b / 255\<bar> \<le> pow2 (0 - 53)" by (rule rd_error) simp
  then have e1: "\<bar>?q - b / 255\<bar> \<le> 1 / 2 ^ 53" by (simp add: fdiv_def pow2_def)
  have "\<bar>?q * 100\<bar> \<le> pow2 7" using q by (simp add: pow2_def)
  then have "\<bar>rd (?q * 100) - ?q * 100\<bar> \<le> pow2 (7 - 53)" by (rule rd_error) simp
  then have e2: "\<bar>fmul ?q 100 - ?q * 100\<bar> \<le> 1 / 2 ^ 46" by (simp add: fmul_def pow2_def)
  have "?q * 100 - b / 255 * 100 = 100 * (?q - b / 255)" by (simp add: algebra_simps)
  then have "\<bar>?q * 100 - b / 255 * 100\<bar> = 100 * \<bar>?q - b / 255\<bar>" by (simp only: abs_mult)
  then have e3: "\<bar>?q * 100 - b / 255 * 100\<bar> \<le> 100 / 2 ^ 53" using e1 by simp
  have "\<bar>fmul ?q 100 - b / 255 * 100\<bar> \<le> 1 / 2 ^ 46 + 100 / 2 ^ 53" using e2 e3 by linarith
  then have "\<bar>fmul ?q 100 - b / 255 * 100\<bar> \<le> 1 / 2 ^ 45" by simp
  moreover have "\<bar>lightness b - spec_clamp 30 80 (b / 255 * 100)\<bar> \<le> \<bar>fmul ?q 100 - b / 255 * 100\<bar>"
    unfolding lightness_clamp by (rule spec_clamp_lipschitz) simp
  ultimately show ?thesis by linarith
qed

section \<open>The scan of the grid and the tick\<close>

declare scanRow.simps [simp del]
declare scanGrid.simps [simp del]

lemma cell_fields:
  assumes "c \<in> set (cell prev data w h x y)"
  shows "at_x c = x" and "at_y c = y"
    and "globalAlpha c = (if isMoving prev data (cellIndex w x y) then 1 else rd (3 / 10))"
  using assms by (auto simp: cell_def Let_def split: option.splits if_splits)

lemma cell_nonempty:
  "cell prev data w h x y \<noteq> [] \<longleftrightarrow> (\<exists>avg. avgAt data (cellIndex w x y) = Some avg \<and> 15 < avg)"
  by (auto simp: cell_def Let_def split: option.splits)

lemma scanRow_set:
  "c \<in> set (scanRow prev data w h y x0) \<longleftrightarrow>
     (\<exists>k. x0 + 4 * k < w \<and> c \<in> set (cell prev data w h (x0 + 4 * k) y))"
proof (induction prev data w h y x0 rule: scanRow.induct)
  case (1 prev data w h y x)
  show ?case
  proof (cases "x < w")
    case False
    then show ?thesis by (subst scanRow.simps) simp
  next
    case True
    have "c \<in> set (scanRow prev data w h y x) \<longleftrightarrow>
        c \<in> set (cell prev data w h x y) \<or>
        (\<exists>k. x + fontSize + 4 * k < w \<and> c \<in> set (cell prev data w h (x + fontSize + 4 * k) y))"
      using True 1 by (subst scanRow.simps) simp
    also have "\<dots> \<longleftrightarrow> (\<exists>k. x + 4 * k < w \<and> c \<in> set (cell prev data w h (x + 4 * k) y))"
    proof
      assume "c \<in> set (cell prev data w h x y) \<or>
        (\<exists>k. x + fontSize + 4 * k < w \<and> c \<in> set (cell prev data w h (x + fontSize + 4 * k) y))"
      then show "\<exists>k. x + 4 * k < w \<and> c \<in> set (cell prev data w h (x + 4 * k) y)"
      proof
        assume "c \<in> set (cell prev data w h x y)"
        then show ?thesis using True by (intro exI[of _ 0]) simp
      next
        assume "\<exists>k. x + fontSize + 4 * k < w \<and> c \<in> set (cell prev data w h (x + fontSize + 4 * k) y)"
        then obtain k where k: "x + fontSize + 4 * k < w \<and>
          c \<in> set (cell prev data w h (x + fontSize + 4 * k) y)" by blast
        have e: "x + fontSize + 4 * k = x + 4 * Suc k" by (simp add: fontSize_def)
        from k[unfolded e] show ?thesis by blast
      qed
    next
      assume "\<exists>k. x + 4 * k < w \<and> c \<in> set (cell prev data w h (x + 4 * k) y)"
      then obtain k where k: "x + 4 * k < w" "c \<in> set (cell prev data w h (x + 4 * k) y)" by blast
      show "c \<in> set (cell prev data w h x y) \<or>
        (\<exists>k. x + fontSize + 4 * k < w \<and> c \<in> set (cell prev data w h (x + fontSize + 4 * k) y))"
      proof (cases k)
        case 0
        then show ?thesis using k by simp
      next
        case (Suc k')
        then have "x + fontSize + 4 * k' = x + 4 * k" by (simp add: fontSize_def)
        then show ?thesis using k by metis
      qed
    qed
    finally show ?thesis .
  qed
qed

lemma scanGrid_set:
  "c \<in> set (scanGrid prev data w h y0) \<longleftrightarrow>
     (\<exists>j k. y0 + 4 * j < h \<and> 4 * k < w \<and> c \<in> set (cell prev data w h (4 * k) (y0 + 4 * j)))"
proof (induction prev data w h y0 rule: scanGrid.induct)
  case (1 prev data w h y)
  let ?R = "\<lambda>y. \<exists>k. 4 * k < w \<and> c \<in> set (cell prev data w h (4 * k) y)"
  have row: "c \<in> set (scanRow prev data w h y 0) \<longleftrightarrow> ?R y" for y
    using scanRow_set[of c prev data w h y 0] by simp
  show ?case
  proof (cases "y < h")
    case False
    then show ?thesis by (subst scanGrid.simps) simp
  next
    case True
    have "c \<in> set (scanGrid prev data w h y) \<longleftrightarrow>
        ?R y \<or> (\<exists>j. y + fontSize + 4 * j < h \<and> ?R (y + fontSize + 4 * j))"
      using True 1 row by (subst scanGrid.simps) auto
    also have "\<dots> \<longleftrightarrow> (\<exists>j. y + 4 * j < h \<and> ?R (y + 4 * j))"
    proof
      assume "?R y \<or> (\<exists>j. y + fontSize + 4 * j < h \<and> ?R (y + fontSize + 4 * j))"
      then show "\<exists>j. y + 4 * j < h \<and> ?R (y + 4 * j)"
      proof
        assume "?R y"
        then show ?thesis using True by (intro exI[of _ 0]) simp
      next
        assume "\<exists>j. y + fontSize + 4 * j < h \<and> ?R (y + fontSize + 4 * j)"
        then obtain j where j: "y + fontSize + 4 * j < h \<and> ?R (y + fontSize + 4 * j)" by blast
        have e: "y + fontSize + 4 * j = y + 4 * Suc j" by (simp add: fontSize_def)
        from j[unfolded e] show ?thesis by blast
      qed
    next
      assume "\<exists>j. y + 4 * j < h \<and> ?R (y + 4 * j)"
      then obtain j where j: "y + 4 * j < h" "?R (y + 4 * j)" by blast
      show "?R y \<or> (\<exists>j. y + fontSize + 4 * j < h \<and> ?R (y + fontSize + 4 * j))"
      proof (cases j)
        case 0
        then show ?thesis using j by simp
      next
        case (Suc j')
        then have "y + fontSize + 4 * j' = y + 4 * j" by (simp add: fontSize_def)
        then show ?thesis using j by metis
      qed
    qed
    finally show ?thesis by blast
  qed
qed

lemma scanGrid_cells:
  "c \<in> set (scanGrid prev data w h 0) \<longleftrightarrow>
     (\<exists>x y. x < w \<and> y < h \<and> 4 dvd x \<and> 4 dvd y \<and> c \<in> set (cell prev data w h x y))"
proof
  assume "c \<in> set (scanGrid prev data w h 0)"
  then obtain j k where "4 * j < h" "4 * k < w" "c \<in> set (cell prev data w h (4 * k) (4 * j))"
    using scanGrid_set[of c prev data w h 0] by auto
  then show "\<exists>x y. x < w \<and> y < h \<and> 4 dvd x \<and> 4 dvd y \<and> c \<in> set (cell prev data w h x y)"
    by (intro exI[of _ "4 * k"] exI[of _ "4 * j"]) simp
next
  assume "\<exists>x y. x < w \<and> y < h \<and> 4 dvd x \<and> 4 dvd y \<and> c \<in> set (cell prev data w h x y)"
  then obtain x y where xy: "x < w" "y < h" "4 dvd x" "4 dvd y"
    "c \<in> set (cell prev data w h x y)" by blast
  from xy(3,4) obtain k j where "x = 4 * k" "y = 4 * j" unfolding dvd_def by blast
  then show "c \<in> set (scanGrid prev data w h 0)"
    using xy scanGrid_set[of c prev data w h 0] by auto
qed

lemma setFrom_reinit:
  "setFrom (reinitMemory prev data) data =
     (if prev = EmptyArray \<and> data = [] then Inl TypeError else Inr (Uint8Clamped data))"
  by (cases prev) (auto simp: reinitMemory_def)

lemma draw_Inr:
  assumes "draw s data = Inr (calls, s')"
  shows "calls = scanGrid (reinitMemory (previousFrameData s) data) data
                   (canvas_width s) (canvas_height s) 0"
    and "s' = s\<lparr>previousFrameData := Uint8Clamped data\<rparr>"
    and "0 < canvas_width s" and "0 < canvas_height s"
  using assms by (auto simp: draw_def Let_def setFrom_reinit split: if_splits)

lemma draw_returns:
  assumes "0 < canvas_width s" and "0 < canvas_height s" and "data \<noteq> []"
  shows "draw s data =
     Inr (scanGrid (reinitMemory (previousFrameData s) data) data
            (canvas_width s) (canvas_height s) 0,
          s\<lparr>previousFrameData := Uint8Clamped data\<rparr>)"
  using assms by (simp add: draw_def Let_def setFrom_reinit)


lemma rd_byte_diff:
  fixes a b :: byte
  shows "fsub (real (unat a)) (real (unat b)) = of_int (int (unat a) - int (unat b))"
proof -
  have "\<bar>int (unat a) - int (unat b)\<bar> \<le> 255"
    using byte_le_255[of a] byte_le_255[of b] by linarith
  moreover have "(255::int) < 2 ^ 53" by simp
  ultimately have "\<bar>int (unat a) - int (unat b)\<bar> < 2 ^ 53" by (rule le_less_trans)
  then have "rd (of_int (int (unat a) - int (unat b))) = of_int (int (unat a) - int (unat b))"
    by (rule rd_of_int)
  then show ?thesis by (simp add: fsub_def)
qed

lemma isMoving_Empty: "\<not> isMoving EmptyArray data i"
  by (simp add: isMoving_def split: option.splits)

lemma isMoving_typed:
  "isMoving (Uint8Clamped old) data i \<longleftrightarrow>
     i + 1 < length data \<and> i + 1 < length old \<and>
     8 < \<bar>int (unat (data ! (i + 1))) - int (unat (old ! (i + 1)))\<bar>"
proof (cases "i + 1 < length data \<and> i + 1 < length old")
  case False
  then show ?thesis by (auto simp: isMoving_def byteAt_def split: option.splits)
next
  case True
  then have "isMoving (Uint8Clamped old) data i \<longleftrightarrow>
      motionThreshold < \<bar>fsub (real (unat (data ! (i + 1)))) (real (unat (old ! (i + 1))))\<bar>"
    by (simp add: isMoving_def byteAt_def)
  also have "\<dots> \<longleftrightarrow> (8::real) < \<bar>of_int (int (unat (data ! (i + 1))) - int (unat (old ! (i + 1))))\<bar>"
    by (simp only: rd_byte_diff motionThreshold_def)
  also have "\<dots> \<longleftrightarrow> 8 < \<bar>int (unat (data ! (i + 1))) - int (unat (old ! (i + 1)))\<bar>"
    by linarith
  finally show ?thesis using True by simp
qed

lemma isMoving_self: "\<not> isMoving (Uint8Clamped data) data i"
  by (simp add: isMoving_typed)

lemma isMoving_reinit:
  "isMoving (reinitMemory prev data) data i \<longleftrightarrow>
     buf_length prev = length data \<and> isMoving prev data i"
  by (simp add: reinitMemory_def isMoving_self)




lemma cell_alpha_free:
  "map (\<lambda>c. (at_x c, at_y c, glyph c, fillStyle c)) (cell p d w h x y) =
   map (\<lambda>c. (at_x c, at_y c, glyph c, fillStyle c)) (cell p' d w h x y)"
  by (simp add: cell_def Let_def split: option.splits)

lemma scanRow_alpha_free:
  "map (\<lambda>c. (at_x c, at_y c, glyph c, fillStyle c)) (scanRow p d w h y x) =
   map (\<lambda>c. (at_x c, at_y c, glyph c, fillStyle c)) (scanRow p' d w h y x)"
proof (induction p d w h y x rule: scanRow.induct)
  case (1 p d w h y x)
  show ?case
  proof (cases "x < w")
    case True
    then show ?thesis
      using 1 cell_alpha_free[of p d w h x y p']
      by (subst scanRow.simps, subst (2) scanRow.simps) simp
  next
    case False
    then show ?thesis by (subst scanRow.simps, subst (2) scanRow.simps) simp
  qed
qed

lemma scanGrid_alpha_free:
  "map (\<lambda>c. (at_x c, at_y c, glyph c, fillStyle c)) (scanGrid p d w h y) =
   map (\<lambda>c. (at_x c, at_y c, glyph c, fillStyle c)) (scanGrid p' d w h y)"
proof (induction p d w h y rule: scanGrid.induct)
  case (1 p d w h y)
  show ?case
  proof (cases "y < h")
    case True
    then show ?thesis
      using 1 scanRow_alpha_free[of p d w h y 0 p']
      by (subst scanGrid.simps, subst (2) scanGrid.simps) simp
  next
    case False
    then show ?thesis by (subst scanGrid.simps, subst (2) scanGrid.simps) simp
  qed
qed

lemma draw_alpha:
  assumes "draw s data = Inr (calls, s')" and "c \<in> set calls"
  shows "globalAlpha c = (if tickMoving s data (at_x c) (at_y c) then 1 else rd (3 / 10))"
proof -
  let ?p = "reinitMemory (previousFrameData s) data"
  have "c \<in> set (scanGrid ?p data (canvas_width s) (canvas_height s) 0)"
    using assms draw_Inr(1)[OF assms(1)] by simp
  then obtain x y where "c \<in> set (cell ?p data (canvas_width s) (canvas_height s) x y)"
    unfolding scanGrid_cells by blast
  from cell_fields[OF this] show ?thesis by (simp add: tickMoving_def)
qed

lemma draw_call_at:
  assumes "draw s data = Inr (calls, s')"
    and "x < canvas_width s" and "y < canvas_height s" and "4 dvd x" and "4 dvd y"
  shows "(\<exists>c\<in>set calls. at_x c = x \<and> at_y c = y) \<longleftrightarrow>
         (\<exists>avg. avgAt data (cellIndex (canvas_width s) x y) = Some avg \<and> 15 < avg)"
proof -
  let ?p = "reinitMemory (previousFrameData s) data"
  let ?w = "canvas_width s"
  let ?h = "canvas_height s"
  have calls: "calls = scanGrid ?p data ?w ?h 0" by (rule draw_Inr(1)[OF assms(1)])
  have "(\<exists>c\<in>set calls. at_x c = x \<and> at_y c = y) \<longleftrightarrow> cell ?p data ?w ?h x y \<noteq> []"
  proof
    assume "\<exists>c\<in>set calls. at_x c = x \<and> at_y c = y"
    then obtain c where c: "c \<in> set calls" "at_x c = x" "at_y c = y" by blast
    then obtain x' y' where "c \<in> set (cell ?p data ?w ?h x' y')"
      unfolding calls scanGrid_cells by blast
    with cell_fields(1,2)[OF this] c show "cell ?p data ?w ?h x y \<noteq> []" by auto
  next
    assume "cell ?p data ?w ?h x y \<noteq> []"
    then obtain c where c: "c \<in> set (cell ?p data ?w ?h x y)" by (cases "cell ?p data ?w ?h x y") auto
    then have "c \<in> set calls" unfolding calls scanGrid_cells using assms(2-5) by blast
    with cell_fields(1,2)[OF c] show "\<exists>c\<in>set calls. at_x c = x \<and> at_y c = y" by blast
  qed
  then show ?thesis by (simp only: cell_nonempty)
qed

lemma cell_in_frame:
  assumes "frameOf s data" and "x < canvas_width s" and "y < canvas_height s"
  shows "cellIndex (canvas_width s) x y + 3 < length data"
proof -
  have "y * canvas_width s + x < Suc y * canvas_width s" using assms(2) by simp
  also have "\<dots> \<le> canvas_height s * canvas_width s"
    using assms(3) by (intro mult_le_mono1) simp
  finally have "(y * canvas_width s + x) * 4 + 3 < canvas_height s * canvas_width s * 4" by simp
  then show ?thesis using assms(1) by (simp add: frameOf_def cellIndex_def mult.commute mult.left_commute)
qed

lemma avgAt_in_range:
  assumes "i + 2 < length data"
  shows "avgAt data i = Some (rd (real (unat (data ! i) + unat (data ! (i + 1)) + unat (data ! (i + 2))) / 3))"
proof -
  have "avgAt data i = Some (fdiv (fadd (fadd (real (unat (data ! i))) (real (unat (data ! (i + 1)))))
      (real (unat (data ! (i + 2))))) 3)"
    using assms by (simp add: avgAt_def byteAt_def)
  then show ?thesis by (simp only: byte_sum fdiv_def)
qed

lemma scanGrid_4_4: "scanGrid p d 4 4 0 = cell p d 4 4 0 0"
  by (simp add: scanGrid.simps scanRow.simps fontSize_def)


section \<open>The disc of the middle band\<close>

lemma rd_small_int:
  assumes "\<bar>m\<bar> \<le> 25000"
  shows "rd (of_int m) = of_int m"
proof -
  have "(25000::int) < 2 ^ 53" by simp
  with assms have "\<bar>m\<bar> < 2 ^ 53" by (rule le_less_trans)
  then show ?thesis by (rule rd_of_int)
qed

lemma rd_6399_128: "rd (6399 / 128) = 6399 / 128"
  using rd_dyadic[of 7 6399] by simp

lemma disc_distance:
  fixes x y :: nat
  assumes "x < 300" and "100 \<le> y" and "y < 200"
  shows "fsqrt (fadd (fsquare (fsub (real x) (fdiv 300 2))) (fsquare (fsub (real y) (fdiv 300 2))))
         = rd (sqrt (of_int ((int x - 150)\<^sup>2 + (int y - 150)\<^sup>2)))"
    and "(int x - 150)\<^sup>2 + (int y - 150)\<^sup>2 \<le> 25000"
proof -
  let ?dx = "int x - 150"
  let ?dy = "int y - 150"
  have c: "fdiv 300 2 = 150" by (simp add: fdiv_def rd_numeral)
  have bx: "\<bar>?dx\<bar> \<le> \<bar>150\<bar>" using assms(1) by simp
  have hy: "\<bar>?dy\<bar> \<le> \<bar>50\<bar>" using assms(2,3) by simp
  have sx: "?dx\<^sup>2 \<le> 22500" using bx unfolding abs_le_square_iff by simp
  have sy: "?dy\<^sup>2 \<le> 2500" using hy unfolding abs_le_square_iff by simp
  show n: "?dx\<^sup>2 + ?dy\<^sup>2 \<le> 25000" using sx sy by linarith
  have "\<bar>?dx\<bar> \<le> 25000" using bx by simp
  then have "rd (of_int ?dx) = of_int ?dx" by (rule rd_small_int)
  then have fx: "fsub (real x) 150 = of_int ?dx" by (simp add: fsub_def)
  have "\<bar>?dy\<bar> \<le> 25000" using hy by simp
  then have "rd (of_int ?dy) = of_int ?dy" by (rule rd_small_int)
  then have fy: "fsub (real y) 150 = of_int ?dy" by (simp add: fsub_def)
  have "\<bar>?dx\<^sup>2\<bar> \<le> 25000" using sx by simp
  then have "rd (of_int (?dx\<^sup>2)) = of_int (?dx\<^sup>2)" by (rule rd_small_int)
  then have qx: "fsquare (of_int ?dx) = of_int (?dx\<^sup>2)" by (simp add: fsquare_def power2_eq_square)
  have "\<bar>?dy\<^sup>2\<bar> \<le> 25000" using sy by simp
  then have "rd (of_int (?dy\<^sup>2)) = of_int (?dy\<^sup>2)" by (rule rd_small_int)
  then have qy: "fsquare (of_int ?dy) = of_int (?dy\<^sup>2)" by (simp add: fsquare_def power2_eq_square)
  have "\<bar>?dx\<^sup>2 + ?dy\<^sup>2\<bar> \<le> 25000" using n by simp
  then have "rd (of_int (?dx\<^sup>2 + ?dy\<^sup>2)) = of_int (?dx\<^sup>2 + ?dy\<^sup>2)" by (rule rd_small_int)
  then have s: "fadd (of_int (?dx\<^sup>2)) (of_int (?dy\<^sup>2)) = of_int (?dx\<^sup>2 + ?dy\<^sup>2)"
    by (simp add: fadd_def)
  show "fsqrt (fadd (fsquare (fsub (real x) (fdiv 300 2))) (fsquare (fsub (real y) (fdiv 300 2))))
         = rd (sqrt (of_int (?dx\<^sup>2 + ?dy\<^sup>2)))"
    by (simp only: c fx fy qx qy s fsqrt_def)
qed

lemma rd_sqrt_50:
  fixes n :: int
  shows "rd (sqrt (of_int n)) < 50 \<longleftrightarrow> n < 2500"
proof
  assume a: "rd (sqrt (of_int n)) < 50"
  show "n < 2500"
  proof (rule ccontr)
    assume "\<not> n < 2500"
    then have "(2500::real) \<le> of_int n" by simp
    then have "sqrt 2500 \<le> sqrt (of_int n)" by (simp only: real_sqrt_le_iff)
    then have "50 \<le> sqrt (of_int n)" by (simp only: sqrt_2500)
    then have "rd 50 \<le> rd (sqrt (of_int n))" by (rule rd_mono)
    then show False using a by (simp add: rd_numeral)
  qed
next
  assume "n < 2500"
  then have "real_of_int n \<le> 2499" by simp
  also have "(2499::real) \<le> (6399 / 128)\<^sup>2" by (simp add: power2_eq_square)
  finally have "sqrt (of_int n) \<le> 6399 / 128" by (intro real_le_lsqrt) simp_all
  then have "rd (sqrt (of_int n)) \<le> rd (6399 / 128)" by (rule rd_mono)
  then show "rd (sqrt (of_int n)) < 50" by (simp add: rd_6399_128)
qed

lemma getColor_300_disc:
  fixes x y :: nat
  assumes "x < 300" and "100 \<le> y" and "y < 200"
  shows "getColor (real y) 300 (real x) 300 b =
     (if (int x - 150)\<^sup>2 + (int y - 150)\<^sup>2 < 2500
      then Hsl 240 100 (lightness b) else Hsl 0 0 (lightness b))"
proof -
  have z: "\<not> real y < fdiv 300 3" "real y < fmul (fdiv 300 3) 2"
    using assms(2,3) by (simp_all add: fops rd_numeral)
  have six: "fdiv 300 6 = 50" by (simp add: fdiv_def rd_numeral)
  show ?thesis
    unfolding getColor_def Let_def
    by (simp only: z if_False if_True disc_distance(1)[OF assms] six rd_sqrt_50)
qed

section \<open>The claims\<close>

text \<open>
  C1, as the code has it. In a 300 by 300 frame the centre cell \<open>(150, 150)\<close> gets the
  navy hue 240 at full saturation. The cell \<open>(150, 101)\<close> lies 49 from the centre, which
  is less than \<open>height / 6 = 50\<close>, so it is inside the disc and navy too, whichever of
  the two numbers is the row. Every cell of the middle zone, in column \<open>x\<close> below 300
  of a row \<open>y\<close> from 100 to 199, is navy when its distance from the centre is less
  than 50, that is when \<open>(x - 150)\<^sup>2 + (y - 150)\<^sup>2 < 2500\<close>, and gets the neutral
  colour of saturation 0 when the distance is 50 or more, as column 150 of row 100 does.
  The arguments of \<open>getColor\<close> are \<open>y, height, x, width, brightness\<close>.
\<close>

theorem C1_disc_amended:
  "getColor 150 300 150 300 b = Hsl 240 100 (lightness b) \<and>
   getColor 101 300 150 300 b = Hsl 240 100 (lightness b) \<and>
   getColor 150 300 101 300 b = Hsl 240 100 (lightness b) \<and>
   getColor 100 300 150 300 b = Hsl 0 0 (lightness b) \<and>
   (x < 300 \<and> 100 \<le> y \<and> y < 200 \<longrightarrow>
      getColor (real y) 300 (real x) 300 b =
        (if (int x - 150)\<^sup>2 + (int y - 150)\<^sup>2 < 2500
         then Hsl 240 100 (lightness b) else Hsl 0 0 (lightness b)))"
  using getColor_centre[of b] getColor_150_101[of b] getColor_101_150[of b]
    getColor_150_100[of b] getColor_300_disc[of x y b] by simp

theorem C1_disc_amended_witness:
  "(110::nat) < 300 \<and> (100::nat) \<le> 110 \<and> (110::nat) < 200 \<and>
   getColor 110 300 110 300 255 = Hsl 0 0 80 \<and>
   getColor 115 300 120 300 255 = Hsl 240 100 80 \<and>
   getColor 100 300 150 300 255 = Hsl 0 0 80"
proof -
  have a: "getColor (real 110) 300 (real 110) 300 255 = Hsl 0 0 (lightness 255)"
    using C1_disc_amended[of 255 110 110] by simp
  have b: "getColor (real 115) 300 (real 120) 300 255 = Hsl 240 100 (lightness 255)"
    using C1_disc_amended[of 255 120 115] by simp
  have c: "getColor 100 300 150 300 255 = Hsl 0 0 (lightness 255)"
    using C1_disc_amended[of 255 0 0] by simp
  show ?thesis using a b c by (simp add: lightness_255)
qed

text \<open>
  C1 as stated fails: for brightness 255 the cell in column 150 of row 101 of a 300 by
  300 frame is coloured \<^verbatim>\<open>hsl(240, 100%, 80%)\<close>, not the neutral
  \<^verbatim>\<open>hsl(0, 0%, 80%)\<close>, and so is the cell in column 101 of row 150.
\<close>

theorem C1_disc_counterexample:
  "getColor 101 300 150 300 255 = Hsl 240 100 80 \<and>
   getColor 101 300 150 300 255 \<noteq> Hsl 0 0 80 \<and>
   getColor 150 300 101 300 255 = Hsl 240 100 80 \<and>
   getColor 150 300 101 300 255 \<noteq> Hsl 0 0 80"
  using getColor_150_101[of 255] getColor_101_150[of 255] lightness_255 by simp

text \<open>
  C2: for a palette of length \<open>N\<close> from 2 up (a JavaScript string has fewer than
  \<open>2 ^ 53\<close> characters), a brightness in \<open>[0, 255]\<close> selects the character at
  \<open>N - 1 - idx\<close> with \<open>idx = floor((avg / 255) * (N - 1))\<close>, an index inside the palette.
  Brightness 0 gives \<open>idx = 0\<close> and the last character, brightness 255 gives
  \<open>idx = N - 1\<close> and the first character.
\<close>

theorem C2_glyph_inversion:
  assumes "2 \<le> length palette" and "length palette < 2 ^ 53"
  shows "(0 \<le> avg \<and> avg \<le> 255 \<longrightarrow>
            0 \<le> charIndex palette avg \<and> charIndex palette avg \<le> int (length palette) - 1 \<and>
            charFor palette avg =
              Some (palette ! (length palette - 1 -
                nat \<lfloor>fmul (fdiv avg 255) (fsub (real (length palette)) 1)\<rfloor>))) \<and>
         charIndex palette 0 = 0 \<and>
         charFor palette 0 = Some (palette ! (length palette - 1)) \<and>
         charIndex palette 255 = int (length palette) - 1 \<and>
         charFor palette 255 = Some (palette ! 0)"
proof -
  have n: "0 < length palette" using assms(1) by linarith
  have i0: "charIndex palette 0 = 0" using n assms(2) by (rule charIndex_0)
  have i255: "charIndex palette 255 = int (length palette) - 1"
    using n assms(2) by (rule charIndex_255)
  have c0: "charFor palette 0 = Some (palette ! (length palette - 1))"
    using charFor_in_range[OF _ _ n assms(2), of 0] i0 by simp
  have c255: "charFor palette 255 = Some (palette ! 0)"
    using charFor_in_range[OF _ _ n assms(2), of 255] i255 by simp
  have r: "0 \<le> avg \<and> avg \<le> 255 \<longrightarrow>
      0 \<le> charIndex palette avg \<and> charIndex palette avg \<le> int (length palette) - 1 \<and>
      charFor palette avg =
        Some (palette ! (length palette - 1 -
          nat \<lfloor>fmul (fdiv avg 255) (fsub (real (length palette)) 1)\<rfloor>))"
  proof
    assume "0 \<le> avg \<and> avg \<le> 255"
    then have a: "0 \<le> avg" "avg \<le> 255" by simp_all
    show "0 \<le> charIndex palette avg \<and> charIndex palette avg \<le> int (length palette) - 1 \<and>
      charFor palette avg =
        Some (palette ! (length palette - 1 -
          nat \<lfloor>fmul (fdiv avg 255) (fsub (real (length palette)) 1)\<rfloor>))"
      using charIndex_bounds[OF a n assms(2)] charFor_in_range[OF a n assms(2)]
      by (simp add: charIndex_def)
  qed
  show ?thesis by (rule conjI[OF r conjI[OF i0 conjI[OF c0 conjI[OF i255 c255]]]])
qed

theorem C2_glyph_inversion_witness:
  "2 \<le> length chars \<and> length chars < 2 ^ 53 \<and>
   charIndex chars 0 = 0 \<and> charFor chars 0 = Some (chars ! 10) \<and>
   charIndex chars 255 = 10 \<and> charFor chars 255 = Some (chars ! 0)"
proof -
  have h1: "2 \<le> length chars" by (simp add: chars_def)
  have h2: "length chars < 2 ^ 53" by (simp add: chars_def)
  have n: "length chars = 11" by (simp add: chars_def)
  note t = C2_glyph_inversion[OF h1 h2, of 0, THEN conjunct2]
  from t have a: "charIndex chars 0 = 0" by (rule conjunct1)
  from t have b: "charFor chars 0 = Some (chars ! 10)" by (simp add: n)
  from t have c: "charIndex chars 255 = 10" by (simp add: n)
  from t have d: "charFor chars 255 = Some (chars ! 0)" by simp
  show ?thesis by (rule conjI[OF h1 conjI[OF h2 conjI[OF a conjI[OF b conjI[OF c d]]]]])
qed





text \<open>
  C5: in a tick on a frame of the canvas, a grid cell gets a \<^verbatim>\<open>fillText\<close> call exactly
  when its sampled average is strictly above 15: none for an average of 15, one for an
  average of 16. Rounding cannot blur the bound: the average is above 15 exactly when the
  three channel bytes sum to more than 45.
\<close>

theorem C5_suppression_boundary:
  assumes "draw s data = Inr (calls, s')" and "frameOf s data"
    and "x < canvas_width s" and "y < canvas_height s" and "4 dvd x" and "4 dvd y"
    and "i = cellIndex (canvas_width s) x y"
  shows "\<exists>avg. avgAt data i = Some avg \<and>
           ((\<exists>c\<in>set calls. at_x c = x \<and> at_y c = y) \<longleftrightarrow> 15 < avg) \<and>
           (avg = 15 \<longrightarrow> \<not> (\<exists>c\<in>set calls. at_x c = x \<and> at_y c = y)) \<and>
           (avg = 16 \<longrightarrow> (\<exists>c\<in>set calls. at_x c = x \<and> at_y c = y)) \<and>
           (15 < avg \<longleftrightarrow> 45 < unat (data ! i) + unat (data ! (i + 1)) + unat (data ! (i + 2)))"
proof -
  let ?k = "unat (data ! i) + unat (data ! (i + 1)) + unat (data ! (i + 2))"
  have "i + 3 < length data" unfolding assms(7) by (rule cell_in_frame[OF assms(2,3,4)])
  then have "i + 2 < length data" by simp
  then have avg: "avgAt data i = Some (rd (real ?k / 3))" by (rule avgAt_in_range)
  have emit: "(\<exists>c\<in>set calls. at_x c = x \<and> at_y c = y) \<longleftrightarrow> 15 < rd (real ?k / 3)"
    using draw_call_at[OF assms(1,3,4,5,6)] avg by (simp add: assms(7))
  have thr: "15 < rd (real ?k / 3) \<longleftrightarrow> 45 < ?k" by (rule avg_above_15)
  show ?thesis using avg emit thr by auto
qed

theorem C5_suppression_boundary_witness:
  "draw \<lparr>canvas_width = 4, canvas_height = 4, previousFrameData = EmptyArray\<rparr> (replicate 64 15) =
     Inr ([], \<lparr>canvas_width = 4, canvas_height = 4,
               previousFrameData = Uint8Clamped (replicate 64 15)\<rparr>) \<and>
   avgAt (replicate 64 15) (cellIndex 4 0 0) = Some 15 \<and>
   avgAt (replicate 64 16) (cellIndex 4 0 0) = Some 16 \<and>
   (\<exists>c. draw \<lparr>canvas_width = 4, canvas_height = 4, previousFrameData = EmptyArray\<rparr>
          (replicate 64 16) =
        Inr ([c], \<lparr>canvas_width = 4, canvas_height = 4,
                   previousFrameData = Uint8Clamped (replicate 64 16)\<rparr>) \<and>
        at_x c = 0 \<and> at_y c = 0)"
proof -
  let ?s = "\<lparr>canvas_width = 4, canvas_height = 4, previousFrameData = EmptyArray\<rparr>"
  let ?p = "reinitMemory (previousFrameData ?s)"
  have a15: "avgAt (replicate 64 15) (cellIndex 4 0 0) = Some 15"
    by (simp add: cellIndex_def avgAt_def byteAt_def fops rd_numeral)
  have a16: "avgAt (replicate 64 16) (cellIndex 4 0 0) = Some 16"
    by (simp add: cellIndex_def avgAt_def byteAt_def fops rd_numeral)
  have t15: "draw ?s (replicate 64 15) =
      Inr (cell (?p (replicate 64 15)) (replicate 64 15) 4 4 0 0,
           \<lparr>canvas_width = 4, canvas_height = 4,
             previousFrameData = Uint8Clamped (replicate 64 15)\<rparr>)"
    using draw_returns[of ?s "replicate 64 15"] by (simp add: scanGrid_4_4)
  have t16: "draw ?s (replicate 64 16) =
      Inr (cell (?p (replicate 64 16)) (replicate 64 16) 4 4 0 0,
           \<lparr>canvas_width = 4, canvas_height = 4,
             previousFrameData = Uint8Clamped (replicate 64 16)\<rparr>)"
    using draw_returns[of ?s "replicate 64 16"] by (simp add: scanGrid_4_4)
  have f15: "frameOf ?s (replicate 64 15)" and f16: "frameOf ?s (replicate 64 16)"
    by (simp_all add: frameOf_def)
  have x: "(0::nat) < canvas_width ?s" and y: "(0::nat) < canvas_height ?s" by simp_all
  have i: "cellIndex 4 0 0 = cellIndex (canvas_width ?s) 0 0" by simp
  from C5_suppression_boundary[OF t15 f15 x y _ _ i] a15
  have "\<not> (\<exists>c\<in>set (cell (?p (replicate 64 15)) (replicate 64 15) 4 4 0 0). at_x c = 0 \<and> at_y c = 0)"
    by simp
  moreover have "at_x c = 0 \<and> at_y c = 0"
    if "c \<in> set (cell (?p (replicate 64 15)) (replicate 64 15) 4 4 0 0)" for c
    using cell_fields(1,2)[OF that] by simp
  ultimately have "cell (?p (replicate 64 15)) (replicate 64 15) 4 4 0 0 = []"
    by (cases "cell (?p (replicate 64 15)) (replicate 64 15) 4 4 0 0") auto
  with t15 have r15: "draw ?s (replicate 64 15) =
     Inr ([], \<lparr>canvas_width = 4, canvas_height = 4,
               previousFrameData = Uint8Clamped (replicate 64 15)\<rparr>)" by simp
  from cell_emitted[OF a16, of "?p (replicate 64 16)" 4] t16
  have r16: "\<exists>c. draw ?s (replicate 64 16) =
        Inr ([c], \<lparr>canvas_width = 4, canvas_height = 4,
                   previousFrameData = Uint8Clamped (replicate 64 16)\<rparr>) \<and>
        at_x c = 0 \<and> at_y c = 0" by simp
  show ?thesis using r15 a15 a16 r16 by (intro conjI)
qed

text \<open>
  C6: for height 300 the rows split at 100 and 200 with half-open bounds. Row 99 gets
  the top colour, rows 100 and 199 one of the two middle colours, row 200 the bottom
  colour, whatever the column, the width and the brightness; and so does every row
  \<open>y\<close> on its side of the two bounds.
\<close>

theorem C6_zone_boundaries:
  "getColor 99 300 x w b = Hsl 25 100 (lightness b) \<and>
   (getColor 100 300 x w b = Hsl 240 100 (lightness b) \<or>
    getColor 100 300 x w b = Hsl 0 0 (lightness b)) \<and>
   (getColor 199 300 x w b = Hsl 240 100 (lightness b) \<or>
    getColor 199 300 x w b = Hsl 0 0 (lightness b)) \<and>
   getColor 200 300 x w b = Hsl 130 90 (lightness b) \<and>
   (if y < 100 then getColor y 300 x w b = Hsl 25 100 (lightness b)
    else if y < 200 then
      getColor y 300 x w b = Hsl 240 100 (lightness b) \<or>
      getColor y 300 x w b = Hsl 0 0 (lightness b)
    else getColor y 300 x w b = Hsl 130 90 (lightness b))"
proof -
  have top: "getColor 99 300 x w b = Hsl 25 100 (lightness b)"
    by (rule getColor_300_top) simp
  have m1: "getColor 100 300 x w b = Hsl 240 100 (lightness b) \<or>
      getColor 100 300 x w b = Hsl 0 0 (lightness b)"
    by (rule getColor_300_middle) simp_all
  have m2: "getColor 199 300 x w b = Hsl 240 100 (lightness b) \<or>
      getColor 199 300 x w b = Hsl 0 0 (lightness b)"
    by (rule getColor_300_middle) simp_all
  have bot: "getColor 200 300 x w b = Hsl 130 90 (lightness b)"
    by (rule getColor_300_bottom) simp
  have gen: "if y < 100 then getColor y 300 x w b = Hsl 25 100 (lightness b)
    else if y < 200 then
      getColor y 300 x w b = Hsl 240 100 (lightness b) \<or>
      getColor y 300 x w b = Hsl 0 0 (lightness b)
    else getColor y 300 x w b = Hsl 130 90 (lightness b)"
    using getColor_300_top[of y x w b] getColor_300_middle[of y x w b]
      getColor_300_bottom[of y x w b] by simp
  from top m1 m2 bot gen show ?thesis by blast
qed

text \<open>
  C7: the lightness of line 38 is the specification's \<open>clamp(30, 80, (brightness / 255) * 100)\<close>
  for every brightness, so it lies between 30 and 80; computed in binary64 it is within
  \<open>2 ^ -45\<close> of the clamp of the exact product when the brightness is in \<open>[0, 255]\<close>.
  It is exactly 30 for brightness 0, exactly 80 for brightness 255, and strictly between
  the two for 127 and for 128.
\<close>

theorem C7_lightness_clamp:
  "lightness b = spec_clamp 30 80 (fmul (fdiv b 255) 100) \<and>
   30 \<le> lightness b \<and> lightness b \<le> 80 \<and>
   (0 \<le> b \<and> b \<le> 255 \<longrightarrow>
      \<bar>lightness b - spec_clamp 30 80 (b / 255 * 100)\<bar> \<le> 1 / 2 ^ 45) \<and>
   lightness 0 = 30 \<and> lightness 255 = 80 \<and>
   30 < lightness 127 \<and> lightness 127 < 80 \<and>
   30 < lightness 128 \<and> lightness 128 < 80"
  using lightness_clamp[of b] lightness_range[of b] lightness_close[of b] lightness_0
    lightness_255 lightness_127 lightness_128 by simp

theorem C7_lightness_clamp_witness:
  "(0::real) \<le> 127 \<and> (127::real) \<le> 255 \<and>
   \<bar>lightness 127 - spec_clamp 30 80 (127 / 255 * 100)\<bar> \<le> 1 / 2 ^ 45 \<and>
   lightness 127 = spec_clamp 30 80 (fmul (fdiv 127 255) 100) \<and>
   lightness 0 = 30 \<and> lightness 255 = 80"
proof -
  note inst = C7_lightness_clamp[of 127]
  have a: "(0::real) \<le> 127" and b: "(127::real) \<le> 255" by simp_all
  from inst a b have c: "\<bar>lightness 127 - spec_clamp 30 80 (127 / 255 * 100)\<bar> \<le> 1 / 2 ^ 45"
    by blast
  from inst have d: "lightness 127 = spec_clamp 30 80 (fmul (fdiv 127 255) 100)" by blast
  from inst have e: "lightness 0 = 30" by blast
  from inst have f: "lightness 255 = 80" by blast
  show ?thesis by (rule conjI[OF a conjI[OF b conjI[OF c conjI[OF d conjI[OF e f]]]]])
qed



text \<open>
  C9: two ticks on the same frame and canvas that start from memories of any content
  make the same \<^verbatim>\<open>fillText\<close> calls, with the same position, character and colour,
  in the same order. Only the opacity depends on the memory: it is 1 for a cell flagged
  as moving and the literal 0.3 otherwise.
\<close>

theorem C9_motion_only_opacity:
  assumes "draw s data = Inr (calls, s1)" and "draw t data = Inr (calls', t1)"
    and "canvas_width t = canvas_width s" and "canvas_height t = canvas_height s"
  shows "map (\<lambda>c. (at_x c, at_y c, glyph c, fillStyle c)) calls =
         map (\<lambda>c. (at_x c, at_y c, glyph c, fillStyle c)) calls' \<and>
         (\<forall>c\<in>set calls.
            globalAlpha c = (if tickMoving s data (at_x c) (at_y c) then 1 else rd (3 / 10))) \<and>
         (\<forall>c\<in>set calls'.
            globalAlpha c = (if tickMoving t data (at_x c) (at_y c) then 1 else rd (3 / 10)))"
proof -
  have "calls = scanGrid (reinitMemory (previousFrameData s) data) data
                   (canvas_width s) (canvas_height s) 0"
    by (rule draw_Inr(1)[OF assms(1)])
  moreover have "calls' = scanGrid (reinitMemory (previousFrameData t) data) data
                   (canvas_width s) (canvas_height s) 0"
    using draw_Inr(1)[OF assms(2)] assms(3,4) by simp
  ultimately have "map (\<lambda>c. (at_x c, at_y c, glyph c, fillStyle c)) calls =
         map (\<lambda>c. (at_x c, at_y c, glyph c, fillStyle c)) calls'"
    by (simp only: scanGrid_alpha_free[of "reinitMemory (previousFrameData s) data" data _ _ _
          "reinitMemory (previousFrameData t) data"])
  then show ?thesis using draw_alpha[OF assms(1)] draw_alpha[OF assms(2)] by blast
qed

theorem C9_motion_only_opacity_witness:
  "\<exists>c c'.
     draw \<lparr>canvas_width = 4, canvas_height = 4, previousFrameData = Uint8Clamped (replicate 64 0)\<rparr>
       ([200, 200, 200, 255] @ replicate 60 0) =
       Inr ([c], \<lparr>canvas_width = 4, canvas_height = 4,
                  previousFrameData = Uint8Clamped ([200, 200, 200, 255] @ replicate 60 0)\<rparr>) \<and>
     draw \<lparr>canvas_width = 4, canvas_height = 4, previousFrameData = EmptyArray\<rparr>
       ([200, 200, 200, 255] @ replicate 60 0) =
       Inr ([c'], \<lparr>canvas_width = 4, canvas_height = 4,
                  previousFrameData = Uint8Clamped ([200, 200, 200, 255] @ replicate 60 0)\<rparr>) \<and>
     globalAlpha c = 1 \<and> globalAlpha c' = rd (3 / 10) \<and>
     glyph c = glyph c' \<and> fillStyle c = fillStyle c' \<and> at_x c = at_x c' \<and> at_y c = at_y c'"
proof -
  let ?s = "\<lparr>canvas_width = 4, canvas_height = 4, previousFrameData = Uint8Clamped (replicate 64 0)\<rparr>"
  let ?t = "\<lparr>canvas_width = 4, canvas_height = 4, previousFrameData = EmptyArray\<rparr>"
  let ?d = "[200, 200, 200, 255] @ replicate 60 (0::byte)"
  let ?u = "\<lparr>canvas_width = 4, canvas_height = 4, previousFrameData = Uint8Clamped ?d\<rparr>"
  have avg: "avgAt ?d (cellIndex 4 0 0) = Some 200"
    by (simp add: cellIndex_def avgAt_def byteAt_def fops rd_numeral)
  have gt: "(15::real) < 200" by simp
  obtain c where c: "cell (reinitMemory (previousFrameData ?s) ?d) ?d 4 4 0 0 = [c]"
    using cell_emitted[OF avg gt] by simp
  obtain c' where c': "cell (reinitMemory (previousFrameData ?t) ?d) ?d 4 4 0 0 = [c']"
    using cell_emitted[OF avg gt] by simp
  have ts: "draw ?s ?d = Inr ([c], ?u)"
    using draw_returns[of ?s ?d] c by (simp add: scanGrid_4_4)
  have tt: "draw ?t ?d = Inr ([c'], ?u)"
    using draw_returns[of ?t ?d] c' by (simp add: scanGrid_4_4)
  note inst = C9_motion_only_opacity[OF ts tt]
  have cin: "c \<in> set (cell (reinitMemory (previousFrameData ?s) ?d) ?d 4 4 0 0)"
    unfolding c by simp
  have cin': "c' \<in> set (cell (reinitMemory (previousFrameData ?t) ?d) ?d 4 4 0 0)"
    unfolding c' by simp
  have xy: "at_x c = 0" "at_y c = 0" "at_x c' = 0" "at_y c' = 0"
    using cell_fields(1,2)[OF cin] cell_fields(1,2)[OF cin'] by simp_all
  have ms: "tickMoving ?s ?d 0 0"
    by (simp add: tickMoving_def isMoving_reinit isMoving_typed cellIndex_def)
  have mt: "\<not> tickMoving ?t ?d 0 0"
    by (simp add: tickMoving_def isMoving_reinit isMoving_Empty)
  from inst have same: "glyph c = glyph c' \<and> fillStyle c = fillStyle c'" by simp
  from inst ms xy have a: "globalAlpha c = 1" by simp
  from inst mt xy have a': "globalAlpha c' = rd (3 / 10)" by simp
  show ?thesis using ts tt a a' same xy by (intro exI[of _ c] exI[of _ c']) simp
qed

text \<open>
  C10: the default palette has 11 characters, and the first and the last are spaces.
  A cell whose average is exactly 255 has index 10 and gets the first character; a cell
  that is drawn (average above 15) with an average below 25.5 has index 0 and gets the
  last character. Both cells make one \<^verbatim>\<open>fillText\<close> call, and its character is a
  space. The average is the one sampled from the pixel bytes of the cell.
\<close>

theorem C10_blank_ends:
  assumes "avgAt data (cellIndex w x y) = Some avg"
    and "avg = 255 \<or> 15 < avg \<and> avg < 51 / 2"
  shows "chars ! 0 = CHR '' '' \<and> chars ! 10 = CHR '' '' \<and> length chars = 11 \<and>
         charFor chars avg = Some CHR '' '' \<and>
         charIndex chars avg = (if avg = 255 then 10 else 0) \<and>
         (\<exists>c. cell prev data w h x y = [c] \<and> glyph c = Some CHR '' '')"
proof -
  have g: "charFor chars avg = Some CHR '' ''"
    using assms dim_cell_blank[of data "cellIndex w x y" avg] charFor_chars_255 by auto
  have i: "charIndex chars avg = (if avg = 255 then 10 else 0)"
  proof (cases "avg = 255")
    case True
    have "0 < length chars" "length chars < 2 ^ 53" by (simp_all add: chars_def)
    then have "charIndex chars 255 = int (length chars) - 1" by (rule charIndex_255)
    then show ?thesis using True by (simp add: chars_length)
  next
    case False
    then have r: "15 < avg" "avg < 51 / 2" using assms(2) by simp_all
    from avgAt_Some[OF assms(1)] obtain k where k: "avg = rd (real k / 3)" by blast
    have "avg \<le> 203 / 8" using r(2) unfolding k by (rule avg_below_51_2)
    moreover have "0 \<le> avg" using r(1) by simp
    ultimately have "charIndex chars avg = 0" by (intro charIndex_chars_low)
    then show ?thesis using False by simp
  qed
  have "15 < avg" using assms(2) by auto
  from cell_emitted[OF assms(1) this, of prev h] g
  have e: "\<exists>c. cell prev data w h x y = [c] \<and> glyph c = Some CHR '' ''" by simp
  have p: "chars ! 0 = CHR '' ''" "chars ! 10 = CHR '' ''" by (simp_all add: chars_def)
  show ?thesis using p chars_length g i e by blast
qed

theorem C10_blank_ends_witness:
  "avgAt [20, 20, 20, 255] (cellIndex 1 0 0) = Some 20 \<and>
   avgAt [255, 255, 255, 255] (cellIndex 1 0 0) = Some 255 \<and>
   charFor chars 20 = Some CHR '' '' \<and> charIndex chars 20 = 0 \<and>
   charFor chars 255 = Some CHR '' '' \<and> charIndex chars 255 = 10 \<and>
   (\<exists>c. cell EmptyArray [20, 20, 20, 255] 1 1 0 0 = [c] \<and> glyph c = Some CHR '' '') \<and>
   (\<exists>c. cell EmptyArray [255, 255, 255, 255] 1 1 0 0 = [c] \<and> glyph c = Some CHR '' '')"
proof -
  have a: "avgAt [20, 20, 20, 255] (cellIndex 1 0 0) = Some 20"
    by (simp add: cellIndex_def avgAt_pixel fops rd_numeral)
  have b: "avgAt [255, 255, 255, 255] (cellIndex 1 0 0) = Some 255"
    by (simp add: cellIndex_def avgAt_pixel fops rd_numeral)
  have ra: "(20::real) = 255 \<or> 15 < (20::real) \<and> (20::real) < 51 / 2" by simp
  have rb: "(255::real) = 255 \<or> 15 < (255::real) \<and> (255::real) < 51 / 2" by simp
  note ta = C10_blank_ends[OF a ra, of EmptyArray 1]
  note tb = C10_blank_ends[OF b rb, of EmptyArray 1]
  from ta have 1: "charFor chars 20 = Some CHR '' ''" by simp
  from ta have 2: "charIndex chars 20 = 0" by simp
  from tb have 3: "charFor chars 255 = Some CHR '' ''" by simp
  from tb have 4: "charIndex chars 255 = 10" by simp
  from ta have 5: "\<exists>c. cell EmptyArray [20, 20, 20, 255] 1 1 0 0 = [c] \<and> glyph c = Some CHR '' ''"
    by simp
  from tb have 6: "\<exists>c. cell EmptyArray [255, 255, 255, 255] 1 1 0 0 = [c] \<and> glyph c = Some CHR '' ''"
    by simp
  show ?thesis using a b 1 2 3 4 5 6 by blast
qed

end
